theory Spec2Isabelle
  imports Complex_Main "HOL-Library.Log_Nat" "HOL-Library.Word"
begin

section \<open>Python arithmetic used by the compression core\<close>

text \<open>
  The module \<^verbatim>\<open>google_job.py\<close> computes pixel sizes with Python floats
  (IEEE binary64, round to nearest, ties to even) and with the built-in \<^verbatim>\<open>round\<close>
  (ties to even). Floats are modelled by the rationals they denote; every float
  operation is the exact operation followed by \<open>fl64\<close>, the rounding to the nearest
  binary64 value (53-bit significand, exponents from \<open>-1022\<close>, subnormals included).
  A result beyond the binary64 range is the Python \<^verbatim>\<open>OverflowError\<close>.
\<close>

datatype error =
    IndexError
  | ZeroDivisionError
  | OverflowError
  | ExternalError nat  \<comment> \<open>an exception raised inside PyMuPDF or Pillow\<close>

definition py_round :: "rat \<Rightarrow> int" where
  "py_round x =
     (let f = \<lfloor>x\<rfloor>; d = x - of_int f
      in if d < 1/2 then f
         else if 1/2 < d then f + 1
         else if even f then f else f + 1)"

definition ilog2 :: "rat \<Rightarrow> int" where
  "ilog2 x =
     (let (a, b) = quotient_of x; d = bitlen a - bitlen b
      in if 2 powi d \<le> x then d else d - 1)"

definition fl64 :: "rat \<Rightarrow> rat" where
  "fl64 x =
     (if x = 0 then 0
      else let e = max (ilog2 \<bar>x\<bar>) (- 1022); u = 2 powi (e - 52)
           in of_int (py_round (x / u)) * u)"

definition float_max_bound :: rat where
  "float_max_bound = 2 ^ 1024"

definition to_float :: "rat \<Rightarrow> error + rat" where
  "to_float x = (let r = fl64 x in if \<bar>r\<bar> < float_max_bound then Inr r else Inl OverflowError)"

definition int_truediv :: "int \<Rightarrow> int \<Rightarrow> error + rat" where
  \<comment> \<open>\<^verbatim>\<open>a / b\<close> on two ints: correctly rounded quotient\<close>
  "int_truediv a b =
     (if b = 0 then Inl ZeroDivisionError else to_float (of_int a / of_int b))"

definition int_div_float :: "int \<Rightarrow> rat \<Rightarrow> error + rat" where
  \<comment> \<open>\<^verbatim>\<open>n / 72.0\<close>: the int is converted to float first\<close>
  "int_div_float n y =
     (case to_float (of_int n) of
        Inl e \<Rightarrow> Inl e
      | Inr x \<Rightarrow> if y = 0 then Inl ZeroDivisionError else to_float (x / y))"

definition round_int_mul_float :: "int \<Rightarrow> rat \<Rightarrow> error + int" where
  \<comment> \<open>\<^verbatim>\<open>int(round(n * y))\<close>: conversion of \<open>n\<close> may overflow; an infinite
      product makes \<^verbatim>\<open>round\<close> raise OverflowError\<close>
  "round_int_mul_float n y =
     (case to_float (of_int n) of
        Inl e \<Rightarrow> Inl e
      | Inr x \<Rightarrow> (case to_float (x * y) of Inl e \<Rightarrow> Inl e | Inr p \<Rightarrow> Inr (py_round p)))"

section \<open>Images, canvases and the external libraries\<close>

record image =
  isize :: "int \<times> int"
  pixels :: nat  \<comment> \<open>opaque pixel payload\<close>

record canvas =
  csize :: "int \<times> int"
  fill :: "nat \<times> nat \<times> nat"
  pasted :: "(image \<times> (int \<times> int)) list"

type_synonym bytes = "8 word list"

text \<open>
  What PyMuPDF and Pillow do is not in the repository: a document is the list of its
  pages, and opening, rendering, resampling and encoding are functions of the
  environment, each of which may raise.
\<close>

record world =
  fitz_open :: "string \<Rightarrow> error + nat list"
  render_page :: "nat \<Rightarrow> int \<Rightarrow> error + image"
  resample :: "image \<Rightarrow> int \<times> int \<Rightarrow> error + nat"
  save_pdf :: "canvas \<Rightarrow> canvas list \<Rightarrow> int \<Rightarrow> error + bytes"

record config =
  MAX_TARGET_BYTES :: int
  TARGET_WIDTH_PT :: int
  TARGET_HEIGHT_PT :: int
  START_DPI :: int
  MIN_DPI :: int
  START_JPEG_QUALITY :: int
  MIN_JPEG_QUALITY :: int
  DPI_STEP :: int
  QUALITY_STEP :: int

record pstate =
  next_handle :: nat
  open_docs :: "nat set"
  stdout :: "(int \<times> int \<times> int) list"  \<comment> \<open>the \<^verbatim>\<open>try dpi=.. q=.. -> .. bytes\<close> lines\<close>

section \<open>Render and compose\<close>

fun render_loop :: "world \<Rightarrow> nat list \<Rightarrow> int \<Rightarrow> image list \<Rightarrow> error + image list" where
  "render_loop w [] dpi images = Inr images"
| "render_loop w (p # ps) dpi images =
     (case render_page w p dpi of
        Inl e \<Rightarrow> Inl e
      | Inr img \<Rightarrow> render_loop w ps dpi (images @ [img]))"

definition render_pages_to_images ::
  "world \<Rightarrow> string \<Rightarrow> int \<Rightarrow> pstate \<Rightarrow> (error + image list) \<times> pstate" where
  "render_pages_to_images w input_pdf_path dpi s =
     (case fitz_open w input_pdf_path of
        Inl e \<Rightarrow> (Inl e, s)
      | Inr doc \<Rightarrow>
          let h = next_handle s;
              s1 = s\<lparr>next_handle := Suc h, open_docs := insert h (open_docs s)\<rparr>;
              r = render_loop w doc dpi [];
              s2 = s1\<lparr>open_docs := open_docs s1 - {h}\<rparr>
          in (r, s2))"

definition target_px :: "int \<Rightarrow> int \<Rightarrow> error + int" where
  \<comment> \<open>\<^verbatim>\<open>int(round(target_pt * dpi / 72.0))\<close>\<close>
  "target_px target_pt dpi =
     (case int_div_float (target_pt * dpi) 72 of Inl e \<Rightarrow> Inl e | Inr x \<Rightarrow> Inr (py_round x))"

definition compose_page :: "world \<Rightarrow> int \<Rightarrow> int \<Rightarrow> image \<Rightarrow> error + canvas" where
  "compose_page w target_w_px target_h_px img =
     (let (iw, ih) = isize img in
      case int_truediv target_w_px iw of Inl e \<Rightarrow> Inl e | Inr rw \<Rightarrow>
      case int_truediv target_h_px ih of Inl e \<Rightarrow> Inl e | Inr rh \<Rightarrow>
      let ratio = min rw rh in
      case round_int_mul_float iw ratio of Inl e \<Rightarrow> Inl e | Inr new_w \<Rightarrow>
      case round_int_mul_float ih ratio of Inl e \<Rightarrow> Inl e | Inr new_h \<Rightarrow>
      case resample w img (new_w, new_h) of Inl e \<Rightarrow> Inl e | Inr px \<Rightarrow>
      let resized = \<lparr>isize = (new_w, new_h), pixels = px\<rparr>;
          cv = \<lparr>csize = (target_w_px, target_h_px), fill = (255, 255, 255), pasted = []\<rparr>;
          left = (target_w_px - new_w) div 2;
          top = (target_h_px - new_h) div 2
      in Inr (cv\<lparr>pasted := pasted cv @ [(resized, (left, top))]\<rparr>))"

fun compose_pages :: "world \<Rightarrow> int \<Rightarrow> int \<Rightarrow> image list \<Rightarrow> canvas list \<Rightarrow> error + canvas list" where
  "compose_pages w tw th [] pages = Inr pages"
| "compose_pages w tw th (img # images) pages =
     (case compose_page w tw th img of
        Inl e \<Rightarrow> Inl e
      | Inr cv \<Rightarrow> compose_pages w tw th images (pages @ [cv]))"

definition compose_images_to_target_size ::
  "world \<Rightarrow> image list \<Rightarrow> int \<Rightarrow> int \<Rightarrow> int \<Rightarrow> int \<Rightarrow> error + bytes" where
  "compose_images_to_target_size w images target_w_pt target_h_pt dpi jpeg_quality =
     (case target_px target_w_pt dpi of Inl e \<Rightarrow> Inl e | Inr target_w_px \<Rightarrow>
      case target_px target_h_pt dpi of Inl e \<Rightarrow> Inl e | Inr target_h_px \<Rightarrow>
      case compose_pages w target_w_px target_h_px images [] of Inl e \<Rightarrow> Inl e | Inr pages \<Rightarrow>
      (case pages of
         [] \<Rightarrow> Inl IndexError  \<comment> \<open>\<^verbatim>\<open>pages[0]\<close> on an empty list\<close>
       | p # ps \<Rightarrow> save_pdf w p ps jpeg_quality))"

section \<open>The budget search\<close>

type_synonym result = "bytes \<times> int \<times> int \<times> int"

definition attempt ::
  "world \<Rightarrow> config \<Rightarrow> string \<Rightarrow> int \<Rightarrow> int \<Rightarrow> pstate \<Rightarrow> (error + bytes) \<times> pstate" where
  "attempt w c input_pdf_path dpi quality s =
     (case render_pages_to_images w input_pdf_path dpi s of
        (Inl e, s1) \<Rightarrow> (Inl e, s1)
      | (Inr imgs, s1) \<Rightarrow>
          (compose_images_to_target_size w imgs (TARGET_WIDTH_PT c) (TARGET_HEIGHT_PT c) dpi quality, s1))"

partial_function (option) compress_loop ::
  "world \<Rightarrow> config \<Rightarrow> string \<Rightarrow> int \<Rightarrow> int \<Rightarrow> pstate \<Rightarrow> ((error + result) \<times> pstate) option" where
  "compress_loop w c input_pdf_path dpi quality s =
     (case attempt w c input_pdf_path dpi quality s of
        (Inl e, s1) \<Rightarrow> Some (Inl e, s1)
      | (Inr pdf_bytes, s1) \<Rightarrow>
          let size = int (length pdf_bytes);
              s2 = s1\<lparr>stdout := stdout s1 @ [(dpi, quality, size)]\<rparr>
          in if size \<le> MAX_TARGET_BYTES c then Some (Inr (pdf_bytes, size, dpi, quality), s2)
             else if quality - QUALITY_STEP c \<ge> MIN_JPEG_QUALITY c
               then compress_loop w c input_pdf_path dpi (quality - QUALITY_STEP c) s2
             else if dpi - DPI_STEP c \<ge> MIN_DPI c
               then compress_loop w c input_pdf_path (dpi - DPI_STEP c) (START_JPEG_QUALITY c) s2
             else Some (Inr (pdf_bytes, size, dpi, quality), s2))"

definition iterative_compress_to_limit ::
  "world \<Rightarrow> config \<Rightarrow> string \<Rightarrow> pstate \<Rightarrow> ((error + result) \<times> pstate) option" where
  "iterative_compress_to_limit w c input_pdf_path s =
     compress_loop w c input_pdf_path (START_DPI c) (START_JPEG_QUALITY c) s"

text \<open>
  The descent path: the pairs the loop tries from \<open>(dpi, quality)\<close> on for as long as
  no attempt fits the budget, following lines 187 to 193 of the source. It is finite
  (and used) only for positive steps.
\<close>

function path_from :: "config \<Rightarrow> int \<Rightarrow> int \<Rightarrow> (int \<times> int) list" where
  "path_from c dpi quality =
     (dpi, quality) #
     (if QUALITY_STEP c \<le> 0 \<or> DPI_STEP c \<le> 0 then []
      else if quality - QUALITY_STEP c \<ge> MIN_JPEG_QUALITY c
        then path_from c dpi (quality - QUALITY_STEP c)
      else if dpi - DPI_STEP c \<ge> MIN_DPI c
        then path_from c (dpi - DPI_STEP c) (START_JPEG_QUALITY c)
      else [])"
  by pat_completeness auto
termination
  by (relation "measures [\<lambda>(c, dpi, q). nat (dpi - MIN_DPI c),
                          \<lambda>(c, dpi, q). nat (q - MIN_JPEG_QUALITY c)]") auto

declare path_from.simps [simp del]

fun run_path ::
  "world \<Rightarrow> config \<Rightarrow> string \<Rightarrow> (int \<times> int) list \<Rightarrow> pstate
     \<Rightarrow> ((error + result) \<times> pstate) option" where
  "run_path w c p [] s = None"
| "run_path w c p ((dpi, quality) # rest) s =
     (case attempt w c p dpi quality s of
        (Inl e, s1) \<Rightarrow> Some (Inl e, s1)
      | (Inr pdf_bytes, s1) \<Rightarrow>
          let size = int (length pdf_bytes);
              s2 = s1\<lparr>stdout := stdout s1 @ [(dpi, quality, size)]\<rparr>
          in if size \<le> MAX_TARGET_BYTES c \<or> rest = []
             then Some (Inr (pdf_bytes, size, dpi, quality), s2)
             else run_path w c p rest s2)"

text \<open>
  What a returned run of the loop leaves behind: the lines it printed, each the size of
  the attempt at its pair, all but the last over the budget.
\<close>

definition line_ok :: "world \<Rightarrow> config \<Rightarrow> string \<Rightarrow> pstate \<Rightarrow> int \<times> int \<times> int \<Rightarrow> bool" where
  "line_ok w c p s0 l = (case l of (d, q, sz) \<Rightarrow>
      (\<exists>b. fst (attempt w c p d q s0) = Inr b \<and> sz = int (length b)))"

definition run_inv ::
  "world \<Rightarrow> config \<Rightarrow> string \<Rightarrow> pstate \<Rightarrow> pstate \<Rightarrow> ((error + result) \<times> pstate) \<Rightarrow> bool" where
  "run_inv w c p s0 s r = (case r of (out, s') \<Rightarrow>
     (\<exists>lines. stdout s' = stdout s @ lines
        \<and> (\<forall>l \<in> set lines. line_ok w c p s0 l)
        \<and> (\<forall>l \<in> set (butlast lines). MAX_TARGET_BYTES c < snd (snd l))
        \<and> (case out of
              Inl e \<Rightarrow> (\<forall>l \<in> set lines. MAX_TARGET_BYTES c < snd (snd l))
            | Inr (b, sz, d, q) \<Rightarrow> lines \<noteq> [] \<and> last lines = (d, q, sz) \<and> sz = int (length b)
                  \<and> fst (attempt w c p d q s0) = Inr b)))"

definition quality_steps :: "config \<Rightarrow> int \<Rightarrow> nat" where
  "quality_steps c q = nat ((q - MIN_JPEG_QUALITY c) div QUALITY_STEP c)"

definition dpi_steps :: "config \<Rightarrow> int \<Rightarrow> nat" where
  "dpi_steps c d = nat ((d - MIN_DPI c) div DPI_STEP c)"

definition row :: "config \<Rightarrow> int \<Rightarrow> int \<Rightarrow> (int \<times> int) list" where
  "row c d q = map (\<lambda>j. (d, q - int j * QUALITY_STEP c)) [0..<Suc (quality_steps c q)]"

definition default_config :: config where
  "default_config = \<lparr>MAX_TARGET_BYTES = 1048576, TARGET_WIDTH_PT = 595, TARGET_HEIGHT_PT = 842,
     START_DPI = 150, MIN_DPI = 72, START_JPEG_QUALITY = 85, MIN_JPEG_QUALITY = 30,
     DPI_STEP = 10, QUALITY_STEP = 5\<rparr>"

definition square_world :: "(canvas \<Rightarrow> int \<Rightarrow> nat) \<Rightarrow> world" where
  "square_world size_of =
     \<lparr>fitz_open = (\<lambda>path. Inr [0]),
      render_page = (\<lambda>pg dpi. Inr \<lparr>isize = (1000, 1000), pixels = 0\<rparr>),
      resample = (\<lambda>img sz. Inr 0),
      save_pdf = (\<lambda>pg pgs quality. Inr (replicate (size_of pg quality) 0))\<rparr>"

definition init_state :: pstate where
  "init_state = \<lparr>next_handle = 0, open_docs = {}, stdout = []\<rparr>"

section \<open>The loop follows the descent path\<close>

lemma path_from_nonempty: "path_from c d q \<noteq> []"
  by (subst path_from.simps) simp

lemma loop_eq:
  "0 < QUALITY_STEP c \<Longrightarrow> 0 < DPI_STEP c \<Longrightarrow>
   compress_loop w c p d q s = run_path w c p (path_from c d q) s"
proof (induction c d q arbitrary: s rule: path_from.induct)
  case (1 c dpi quality)
  show ?case
    apply (subst compress_loop.simps)
    apply (subst path_from.simps)
    using 1
    apply (auto split: prod.splits sum.splits simp: Let_def path_from_nonempty)
    done
qed

section \<open>Every returned run is a chain of failed attempts and a last one\<close>

lemma attempt_fst_indep: "fst (attempt w c p d q s) = fst (attempt w c p d q s')"
  unfolding attempt_def render_pages_to_images_def
  by (simp split: sum.splits add: Let_def)

lemma attempt_stdout: "stdout (snd (attempt w c p d q s)) = stdout s"
  unfolding attempt_def render_pages_to_images_def
  by (simp split: sum.splits add: Let_def)

lemma run_inv_step:
  assumes att: "attempt w c p d q s = (Inr b, s1)"
    and big: "MAX_TARGET_BYTES c < int (length b)"
    and inv: "run_inv w c p s0 (s1\<lparr>stdout := stdout s1 @ [(d, q, int (length b))]\<rparr>) r"
  shows "run_inv w c p s0 s r"
proof -
  obtain out s' where r: "r = (out, s')" by (cases r)
  from inv r obtain lines where
    L: "stdout s' = (stdout s1 @ [(d, q, int (length b))]) @ lines"
    "\<forall>l \<in> set lines. line_ok w c p s0 l"
    "\<forall>l \<in> set (butlast lines). MAX_TARGET_BYTES c < snd (snd l)"
    "(case out of
        Inl e \<Rightarrow> (\<forall>l \<in> set lines. MAX_TARGET_BYTES c < snd (snd l))
      | Inr (b, sz, d, q) \<Rightarrow> lines \<noteq> [] \<and> last lines = (d, q, sz) \<and> sz = int (length b)
            \<and> fst (attempt w c p d q s0) = Inr b)"
    unfolding run_inv_def by auto
  have s1: "stdout s1 = stdout s" using attempt_stdout[of w c p d q s] att by simp
  have ok: "line_ok w c p s0 (d, q, int (length b))"
    using attempt_fst_indep[of w c p d q s0 s] att by (simp add: line_ok_def)
  let ?ls = "(d, q, int (length b)) # lines"
  have 1: "stdout s' = stdout s @ ?ls" using L(1) s1 by simp
  have 2: "\<forall>l \<in> set ?ls. line_ok w c p s0 l" using L(2) ok by simp
  have 3: "\<forall>l \<in> set (butlast ?ls). MAX_TARGET_BYTES c < snd (snd l)"
    using L(3) big by (cases lines) auto
  have 4: "(case out of
        Inl e \<Rightarrow> (\<forall>l \<in> set ?ls. MAX_TARGET_BYTES c < snd (snd l))
      | Inr (b, sz, d, q) \<Rightarrow> ?ls \<noteq> [] \<and> last ?ls = (d, q, sz) \<and> sz = int (length b)
            \<and> fst (attempt w c p d q s0) = Inr b)"
    using L(4) big by (auto split: sum.splits)
  show ?thesis unfolding run_inv_def r using 1 2 3 4 by blast
qed

lemma run_inv_err:
  assumes att: "attempt w c p d q s = (Inl e, s1)"
  shows "run_inv w c p s0 s (Inl e, s1)"
  unfolding run_inv_def using attempt_stdout[of w c p d q s] att by simp

lemma run_inv_ret:
  assumes att: "attempt w c p d q s = (Inr b, s1)"
  shows "run_inv w c p s0 s (Inr (b, int (length b), d, q), s1\<lparr>stdout := stdout s1 @ [(d, q, int (length b))]\<rparr>)"
proof -
  have s1: "stdout s1 = stdout s" using attempt_stdout[of w c p d q s] att by simp
  have ok: "line_ok w c p s0 (d, q, int (length b))"
    using attempt_fst_indep[of w c p d q s0 s] att by (simp add: line_ok_def)
  have f: "fst (attempt w c p d q s0) = Inr b"
    using attempt_fst_indep[of w c p d q s0 s] att by simp
  show ?thesis unfolding run_inv_def using s1 ok f by simp
qed

lemma loop_inv_step:
  fixes loop :: "world \<Rightarrow> config \<Rightarrow> string \<Rightarrow> int \<Rightarrow> int \<Rightarrow> pstate \<Rightarrow> ((error + result) \<times> pstate) option"
  assumes IH: "\<And>w c p d q s r. loop w c p d q s = Some r \<Longrightarrow> run_inv w c p s0 s r"
    and body: "(case attempt w c p d q s of
        (Inl e, s1) \<Rightarrow> Some (Inl e, s1)
      | (Inr pdf_bytes, s1) \<Rightarrow>
          let size = int (length pdf_bytes);
              s2 = s1\<lparr>stdout := stdout s1 @ [(d, q, size)]\<rparr>
          in if size \<le> MAX_TARGET_BYTES c then Some (Inr (pdf_bytes, size, d, q), s2)
             else if q - QUALITY_STEP c \<ge> MIN_JPEG_QUALITY c
               then loop w c p d (q - QUALITY_STEP c) s2
             else if d - DPI_STEP c \<ge> MIN_DPI c
               then loop w c p (d - DPI_STEP c) (START_JPEG_QUALITY c) s2
             else Some (Inr (pdf_bytes, size, d, q), s2)) = Some r"
  shows "run_inv w c p s0 s r"
proof (cases "attempt w c p d q s")
  case (Pair a s1)
  show ?thesis
  proof (cases a)
    case (Inl e)
    with Pair body have "r = (Inl e, s1)" by simp
    with run_inv_err[of w c p d q s e s1 s0] Pair Inl show ?thesis by simp
  next
    case (Inr b)
    note att = Pair[unfolded Inr]
    let ?s2 = "s1\<lparr>stdout := stdout s1 @ [(d, q, int (length b))]\<rparr>"
    show ?thesis
    proof (cases "int (length b) \<le> MAX_TARGET_BYTES c")
      case True
      with att body have "r = (Inr (b, int (length b), d, q), ?s2)"
        by (simp add: Let_def)
      with run_inv_ret[OF att] show ?thesis by simp
    next
      case False
      then have big: "MAX_TARGET_BYTES c < int (length b)" by simp
      consider (a) "MIN_JPEG_QUALITY c \<le> q - QUALITY_STEP c"
        | (b) "\<not> MIN_JPEG_QUALITY c \<le> q - QUALITY_STEP c" "MIN_DPI c \<le> d - DPI_STEP c"
        | (cc) "\<not> MIN_JPEG_QUALITY c \<le> q - QUALITY_STEP c" "\<not> MIN_DPI c \<le> d - DPI_STEP c"
        by blast
      then show ?thesis
      proof cases
        case a
        with att False body have "loop w c p d (q - QUALITY_STEP c) ?s2 = Some r"
          by (simp add: Let_def)
        from IH[OF this] have "run_inv w c p s0 ?s2 r" .
        from run_inv_step[OF att big this] show ?thesis .
      next
        case b
        with att False body have "loop w c p (d - DPI_STEP c) (START_JPEG_QUALITY c) ?s2 = Some r"
          by (simp add: Let_def)
        from IH[OF this] have "run_inv w c p s0 ?s2 r" .
        from run_inv_step[OF att big this] show ?thesis .
      next
        case cc
        with att False body have "r = (Inr (b, int (length b), d, q), ?s2)"
          by (simp add: Let_def)
        with run_inv_ret[OF att] show ?thesis by simp
      qed
    qed
  qed
qed

lemma loop_inv:
  assumes "compress_loop w c p d q s = Some r"
  shows "run_inv w c p s0 s r"
  by (rule compress_loop.raw_induct[where P = "\<lambda>w c p d q s r. run_inv w c p s0 s r", OF _ assms])
     (erule (1) loop_inv_step)

lemma steps_Suc:
  fixes a b m :: int
  assumes "0 < b" "m \<le> a - b"
  shows "nat ((a - m) div b) = Suc (nat ((a - b - m) div b))"
proof -
  have "(a - m) div b = ((a - b - m) + b) div b" by (simp add: algebra_simps)
  also have "\<dots> = (a - b - m) div b + 1" using assms(1) div_add_self2[of b "a - b - m"] by simp
  finally have e: "(a - m) div b = (a - b - m) div b + 1" .
  have "0 \<le> (a - b - m) div b" using assms by (simp add: pos_imp_zdiv_nonneg_iff)
  with e show ?thesis by simp
qed

lemma steps_0:
  fixes a b m :: int
  assumes "0 < b" "\<not> m \<le> a - b"
  shows "nat ((a - m) div b) = 0"
proof -
  have "\<not> b \<le> a - m" using assms by simp
  then have "\<not> 0 < (a - m) div b" using assms(1) by (simp add: pos_imp_zdiv_pos_iff)
  then show ?thesis by simp
qed

lemma row_Cons:
  assumes "0 < QUALITY_STEP c" "MIN_JPEG_QUALITY c \<le> q - QUALITY_STEP c"
  shows "row c d q = (d, q) # row c d (q - QUALITY_STEP c)"
proof -
  have k: "quality_steps c q = Suc (quality_steps c (q - QUALITY_STEP c))"
    unfolding quality_steps_def using steps_Suc[OF assms] .
  show ?thesis
    unfolding row_def k
    by (subst map_upt_Suc) (simp add: algebra_simps)
qed

lemma row_single:
  assumes "0 < QUALITY_STEP c" "\<not> MIN_JPEG_QUALITY c \<le> q - QUALITY_STEP c"
  shows "row c d q = [(d, q)]"
proof -
  have k: "quality_steps c q = 0"
    unfolding quality_steps_def using steps_0[OF assms] .
  show ?thesis unfolding row_def k by simp
qed

lemma path_from_row:
  "0 < QUALITY_STEP c \<Longrightarrow> 0 < DPI_STEP c \<Longrightarrow>
   path_from c d q = row c d q @
     (if MIN_DPI c \<le> d - DPI_STEP c then path_from c (d - DPI_STEP c) (START_JPEG_QUALITY c) else [])"
proof (induction c d q rule: path_from.induct)
  case (1 c dpi quality)
  show ?case
  proof (cases "MIN_JPEG_QUALITY c \<le> quality - QUALITY_STEP c")
    case True
    have "path_from c dpi quality = (dpi, quality) # path_from c dpi (quality - QUALITY_STEP c)"
      by (subst path_from.simps) (use 1(3,4) True in simp)
    also have "path_from c dpi (quality - QUALITY_STEP c) = row c dpi (quality - QUALITY_STEP c) @
       (if MIN_DPI c \<le> dpi - DPI_STEP c then path_from c (dpi - DPI_STEP c) (START_JPEG_QUALITY c) else [])"
      using 1(1)[OF _ True 1(3,4)] 1(3,4) by simp
    finally show ?thesis using row_Cons[OF 1(3) True, of dpi] by simp
  next
    case False
    have "path_from c dpi quality = (dpi, quality) #
       (if MIN_DPI c \<le> dpi - DPI_STEP c then path_from c (dpi - DPI_STEP c) (START_JPEG_QUALITY c) else [])"
      by (subst path_from.simps) (use 1(3,4) False in simp)
    then show ?thesis using row_single[OF 1(3) False, of dpi] by simp
  qed
qed

lemma path_from_rows:
  assumes "0 < QUALITY_STEP c" "0 < DPI_STEP c"
  shows "dpi_steps c d = m \<Longrightarrow>
    path_from c d (START_JPEG_QUALITY c) =
      concat (map (\<lambda>i. row c (d - int i * DPI_STEP c) (START_JPEG_QUALITY c)) [0..<Suc m])"
proof (induction m arbitrary: d)
  case 0
  have "\<not> MIN_DPI c \<le> d - DPI_STEP c"
  proof
    assume "MIN_DPI c \<le> d - DPI_STEP c"
    from steps_Suc[OF assms(2) this] 0 show False by (simp add: dpi_steps_def)
  qed
  then show ?case using path_from_row[OF assms, of d "START_JPEG_QUALITY c"] by simp
next
  case (Suc m)
  have le: "MIN_DPI c \<le> d - DPI_STEP c"
  proof (rule ccontr)
    assume "\<not> MIN_DPI c \<le> d - DPI_STEP c"
    from steps_0[OF assms(2) this] Suc(2) show False by (simp add: dpi_steps_def)
  qed
  from steps_Suc[OF assms(2) le] Suc(2) have "dpi_steps c (d - DPI_STEP c) = m"
    by (simp add: dpi_steps_def)
  from Suc(1)[OF this] have IH: "path_from c (d - DPI_STEP c) (START_JPEG_QUALITY c) =
      concat (map (\<lambda>i. row c (d - DPI_STEP c - int i * DPI_STEP c) (START_JPEG_QUALITY c)) [0..<Suc m])" .
  have "path_from c d (START_JPEG_QUALITY c) = row c d (START_JPEG_QUALITY c) @
      path_from c (d - DPI_STEP c) (START_JPEG_QUALITY c)"
    using path_from_row[OF assms, of d "START_JPEG_QUALITY c"] le by simp
  also have "\<dots> = concat (map (\<lambda>i. row c (d - int i * DPI_STEP c) (START_JPEG_QUALITY c)) [0..<Suc (Suc m)])"
    unfolding IH
    by (subst (2) map_upt_Suc) (simp del: upt_Suc add: algebra_simps)
  finally show ?case .
qed

lemma concat_grid:
  assumes "0 < K"
  shows "concat (map (\<lambda>i. map (\<lambda>j. f i j) [0..<K]) [0..<R]) =
         map (\<lambda>n. f (n div K) (n mod K)) [0..<R * K]"
proof (induction R)
  case 0
  then show ?case by simp
next
  case (Suc R)
  let ?h = "\<lambda>n. f (n div K) (n mod K)"
  have "[0..<R * K + K] = [0..<R * K] @ [R * K..<R * K + K]"
    by (rule upt_add_eq_append) simp
  moreover have "[R * K..<R * K + K] = map (\<lambda>j. j + R * K) [0..<K]"
    by (simp only: map_add_upt add.commute)
  ultimately have split: "[0..<Suc R * K] = [0..<R * K] @ map (\<lambda>j. j + R * K) [0..<K]"
    by (simp only: mult_Suc add.commute)
  have last_row: "map ?h (map (\<lambda>j. j + R * K) [0..<K]) = map (\<lambda>j. f R j) [0..<K]"
    using assms by (simp add: comp_def)
  have "concat (map (\<lambda>i. map (\<lambda>j. f i j) [0..<K]) [0..<Suc R]) =
        concat (map (\<lambda>i. map (\<lambda>j. f i j) [0..<K]) [0..<R]) @ map (\<lambda>j. f R j) [0..<K]"
    by simp
  also have "\<dots> = map ?h [0..<R * K] @ map ?h (map (\<lambda>j. j + R * K) [0..<K])"
    unfolding Suc last_row ..
  also have "\<dots> = map ?h [0..<Suc R * K]"
    unfolding split by (simp only: map_append)
  finally show ?case .
qed

lemma path_grid:
  assumes "0 < QUALITY_STEP c" "0 < DPI_STEP c"
  shows "path_from c (START_DPI c) (START_JPEG_QUALITY c) =
     map (\<lambda>n. (START_DPI c - int (n div Suc (quality_steps c (START_JPEG_QUALITY c))) * DPI_STEP c,
               START_JPEG_QUALITY c - int (n mod Suc (quality_steps c (START_JPEG_QUALITY c))) * QUALITY_STEP c))
       [0..<Suc (dpi_steps c (START_DPI c)) * Suc (quality_steps c (START_JPEG_QUALITY c))]"
proof -
  let ?K = "Suc (quality_steps c (START_JPEG_QUALITY c))"
  let ?f = "\<lambda>i j. (START_DPI c - int i * DPI_STEP c, START_JPEG_QUALITY c - int j * QUALITY_STEP c)"
  have "path_from c (START_DPI c) (START_JPEG_QUALITY c) =
      concat (map (\<lambda>i. map (\<lambda>j. ?f i j) [0..<?K]) [0..<Suc (dpi_steps c (START_DPI c))])"
    using path_from_rows[OF assms refl, of "START_DPI c"] unfolding row_def .
  also have "\<dots> = map (\<lambda>n. ?f (n div ?K) (n mod ?K)) [0..<Suc (dpi_steps c (START_DPI c)) * ?K]"
    by (rule concat_grid) simp
  finally show ?thesis .
qed

lemma run_path_Some: "path \<noteq> [] \<Longrightarrow> \<exists>r. run_path w c p path s = Some r"
proof (induction path arbitrary: s)
  case Nil
  then show ?case by simp
next
  case (Cons x path)
  obtain d q where x: "x = (d, q)" by (cases x)
  show ?case
  proof (cases "path = []")
    case True
    then show ?thesis unfolding x by (simp split: prod.splits sum.splits add: Let_def)
  next
    case False
    from Cons.IH[OF False] show ?thesis unfolding x
      by (simp split: prod.splits sum.splits add: Let_def)
  qed
qed

lemma run_path_trace:
  "run_path w c p path s = Some (out, s') \<Longrightarrow>
   \<exists>lines. stdout s' = stdout s @ lines
     \<and> map (\<lambda>l. (fst l, fst (snd l))) lines = take (length lines) path
     \<and> length lines \<le> length path
     \<and> (case out of Inl e \<Rightarrow> length lines < length path
         | Inr r \<Rightarrow> lines \<noteq> [] \<and> (MAX_TARGET_BYTES c < fst (snd r) \<longrightarrow> length lines = length path))"
proof (induction path arbitrary: s)
  case Nil
  then show ?case by simp
next
  case (Cons x path)
  obtain d q where x: "x = (d, q)" by (cases x)
  obtain a s1 where att: "attempt w c p d q s = (a, s1)" by (cases "attempt w c p d q s")
  have s1: "stdout s1 = stdout s" using attempt_stdout[of w c p d q s] att by simp
  show ?case
  proof (cases a)
    case (Inl e)
    with Cons.prems att x have "out = Inl e" "s' = s1" by simp_all
    then show ?thesis using s1 by (intro exI[of _ "[]"]) simp
  next
    case (Inr b)
    let ?sz = "int (length b)"
    let ?s2 = "s1\<lparr>stdout := stdout s1 @ [(d, q, ?sz)]\<rparr>"
    show ?thesis
    proof (cases "?sz \<le> MAX_TARGET_BYTES c \<or> path = []")
      case True
      with Cons.prems att x Inr have "out = Inr (b, ?sz, d, q)" "s' = ?s2"
        by (simp_all add: Let_def)
      then show ?thesis using s1 True x by (intro exI[of _ "[(d, q, ?sz)]"]) auto
    next
      case False
      with Cons.prems att x Inr have "run_path w c p path ?s2 = Some (out, s')"
        by (simp add: Let_def)
      from Cons.IH[OF this] obtain lines where
        L: "stdout s' = stdout ?s2 @ lines"
        "map (\<lambda>l. (fst l, fst (snd l))) lines = take (length lines) path"
        "length lines \<le> length path"
        "(case out of Inl e \<Rightarrow> length lines < length path
         | Inr r \<Rightarrow> lines \<noteq> [] \<and> (MAX_TARGET_BYTES c < fst (snd r) \<longrightarrow> length lines = length path))"
        by blast
      show ?thesis
        using L s1 x by (intro exI[of _ "(d, q, ?sz) # lines"]) (auto split: sum.splits)
    qed
  qed
qed

lemma run_facts:
  assumes pos: "0 < QUALITY_STEP c" "0 < DPI_STEP c"
  shows "\<exists>out s' lines.
     iterative_compress_to_limit w c p s = Some (out, s')
   \<and> stdout s' = stdout s @ lines
   \<and> run_inv w c p s s (out, s')
   \<and> map (\<lambda>l. (fst l, fst (snd l))) lines
        = take (length lines) (path_from c (START_DPI c) (START_JPEG_QUALITY c))
   \<and> length lines \<le> length (path_from c (START_DPI c) (START_JPEG_QUALITY c))
   \<and> (case out of
         Inl e \<Rightarrow> length lines < length (path_from c (START_DPI c) (START_JPEG_QUALITY c))
       | Inr r \<Rightarrow> lines \<noteq> [] \<and> (MAX_TARGET_BYTES c < fst (snd r) \<longrightarrow>
            length lines = length (path_from c (START_DPI c) (START_JPEG_QUALITY c))))"
proof -
  let ?path = "path_from c (START_DPI c) (START_JPEG_QUALITY c)"
  have eq: "iterative_compress_to_limit w c p s = run_path w c p ?path s"
    unfolding iterative_compress_to_limit_def by (rule loop_eq[OF pos])
  from run_path_Some[OF path_from_nonempty, of w c p c "START_DPI c" "START_JPEG_QUALITY c" s]
  obtain out s' where r: "run_path w c p ?path s = Some (out, s')" by force
  from run_path_trace[OF r] obtain lines where
    L: "stdout s' = stdout s @ lines"
       "map (\<lambda>l. (fst l, fst (snd l))) lines = take (length lines) ?path"
       "length lines \<le> length ?path"
       "(case out of Inl e \<Rightarrow> length lines < length ?path
         | Inr r \<Rightarrow> lines \<noteq> [] \<and> (MAX_TARGET_BYTES c < fst (snd r) \<longrightarrow> length lines = length ?path))"
    by blast
  have "compress_loop w c p (START_DPI c) (START_JPEG_QUALITY c) s = Some (out, s')"
    using eq r unfolding iterative_compress_to_limit_def by simp
  from loop_inv[OF this] have inv: "run_inv w c p s s (out, s')" .
  show ?thesis
    apply (intro exI[of _ out] exI[of _ s'] exI[of _ lines])
    using eq r L inv apply simp
    done
qed

lemma path_length:
  assumes "0 < QUALITY_STEP c" "0 < DPI_STEP c"
  shows "length (path_from c (START_DPI c) (START_JPEG_QUALITY c)) =
     Suc (dpi_steps c (START_DPI c)) * Suc (quality_steps c (START_JPEG_QUALITY c))"
  unfolding path_grid[OF assms] by (simp del: upt_Suc mult_Suc mult_Suc_right)

lemma steps_le_ceiling:
  fixes a b :: int
  assumes "0 < b" "0 \<le> a"
  shows "int (Suc (nat (a div b))) \<le> \<lceil>of_int a / of_int b + (1::rat)\<rceil>"
proof -
  have "0 \<le> a div b" using assms by (simp add: pos_imp_zdiv_nonneg_iff)
  then have e: "int (Suc (nat (a div b))) = a div b + 1" by simp
  have "a div b = \<lfloor>(of_int a :: rat) / of_int b\<rfloor>" by (rule floor_divide_of_int_eq[symmetric])
  also have "\<dots> \<le> \<lceil>(of_int a :: rat) / of_int b\<rceil>" by (rule floor_le_ceiling)
  finally have "a div b + 1 \<le> \<lceil>(of_int a :: rat) / of_int b\<rceil> + 1" by simp
  also have "\<dots> = \<lceil>(of_int a :: rat) / of_int b + 1\<rceil>" by (rule ceiling_add_one[symmetric])
  finally show ?thesis unfolding e .
qed

lemma grid_div_mod:
  fixes r k :: nat
  shows "(r * Suc k + k) div Suc k = r" "(r * Suc k + k) mod Suc k = k"
  by (simp_all del: mult_Suc_right)

lemma path_last:
  assumes "0 < QUALITY_STEP c" "0 < DPI_STEP c"
  shows "last (path_from c (START_DPI c) (START_JPEG_QUALITY c)) =
     (START_DPI c - int (dpi_steps c (START_DPI c)) * DPI_STEP c,
      START_JPEG_QUALITY c - int (quality_steps c (START_JPEG_QUALITY c)) * QUALITY_STEP c)"
proof -
  let ?R = "dpi_steps c (START_DPI c)"
  let ?K = "quality_steps c (START_JPEG_QUALITY c)"
  have n: "Suc ?R * Suc ?K = Suc (?R * Suc ?K + ?K)" by simp
  have d: "(?R * Suc ?K + ?K) div Suc ?K = ?R" by (rule grid_div_mod)
  have m: "(?R * Suc ?K + ?K) mod Suc ?K = ?K" by (rule grid_div_mod)
  show ?thesis
    unfolding path_grid[OF assms] n
    by (simp only: upt_Suc_append[OF le0] map_append list.map last_snoc d m)
qed

lemma path_nth:
  assumes "0 < QUALITY_STEP c" "0 < DPI_STEP c"
    and "n < Suc (dpi_steps c (START_DPI c)) * Suc (quality_steps c (START_JPEG_QUALITY c))"
  shows "path_from c (START_DPI c) (START_JPEG_QUALITY c) ! n =
     (START_DPI c - int (n div Suc (quality_steps c (START_JPEG_QUALITY c))) * DPI_STEP c,
      START_JPEG_QUALITY c - int (n mod Suc (quality_steps c (START_JPEG_QUALITY c))) * QUALITY_STEP c)"
  unfolding path_grid[OF assms(1,2)] using assms(3)
  by (simp only: nth_map length_upt diff_zero nth_upt add_0)

lemma steps_int:
  fixes a b :: int
  assumes "0 < b" "0 \<le> a"
  shows "int (nat (a div b)) = a div b"
  using assms by (simp add: pos_imp_zdiv_nonneg_iff)

lemma run_inv_lines:
  assumes "run_inv w c p s0 s (out, s')" "stdout s' = stdout s @ lines"
  shows "(\<forall>l \<in> set lines. line_ok w c p s0 l)
     \<and> (\<forall>l \<in> set (butlast lines). MAX_TARGET_BYTES c < snd (snd l))
     \<and> (case out of
            Inl e \<Rightarrow> (\<forall>l \<in> set lines. MAX_TARGET_BYTES c < snd (snd l))
          | Inr (b, sz, d, q) \<Rightarrow> lines \<noteq> [] \<and> last lines = (d, q, sz) \<and> sz = int (length b)
                \<and> fst (attempt w c p d q s0) = Inr b)"
proof -
  from assms(1) obtain ls where
    L: "stdout s' = stdout s @ ls"
    "\<forall>l \<in> set ls. line_ok w c p s0 l"
    "\<forall>l \<in> set (butlast ls). MAX_TARGET_BYTES c < snd (snd l)"
    "(case out of
        Inl e \<Rightarrow> (\<forall>l \<in> set ls. MAX_TARGET_BYTES c < snd (snd l))
      | Inr (b, sz, d, q) \<Rightarrow> ls \<noteq> [] \<and> last ls = (d, q, sz) \<and> sz = int (length b)
            \<and> fst (attempt w c p d q s0) = Inr b)"
    unfolding run_inv_def by auto
  from L(1) assms(2) have e: "ls = lines" by simp
  from L(2-4) show ?thesis unfolding e by blast
qed

lemma passing_line_is_last:
  assumes "\<forall>l \<in> set (butlast lines). (m::int) < snd (snd l)" "l \<in> set lines" "snd (snd l) \<le> m"
  shows "l = last lines"
proof -
  from assms(2) have ne: "lines \<noteq> []" by auto
  then have "lines = butlast lines @ [last lines]" by simp
  then have "set lines = set (butlast lines) \<union> {last lines}"
    by (metis list.set(1) list.simps(15) set_append Un_insert_right sup_bot.right_neutral)
  with assms show ?thesis by auto
qed

section \<open>Compose on an empty raster sequence\<close>

text \<open>
  Claim C7. Called with no rasters, \<^verbatim>\<open>compose_images_to_target_size\<close> never returns
  an encoded document: it raises. The exception is the IndexError of \<^verbatim>\<open>pages[0]\<close>
  (the spec's InvalidInput condition for zero pages), unless the pixel-size computation
  before it already overflowed the float range.
\<close>

theorem compose_empty_raises:
  "compose_images_to_target_size w [] target_w_pt target_h_pt dpi jpeg_quality = Inl IndexError \<or>
   compose_images_to_target_size w [] target_w_pt target_h_pt dpi jpeg_quality = Inl OverflowError"
  unfolding compose_images_to_target_size_def target_px_def int_div_float_def to_float_def
  by (simp split: sum.splits add: Let_def)

section \<open>The document handle is released\<close>

text \<open>
  Claim C8. On every exit path of \<^verbatim>\<open>render_pages_to_images\<close> the handle opened at call
  entry is closed again: when \<^verbatim>\<open>fitz.open\<close> raises, no handle was opened and the state
  is unchanged; otherwise, whether the page loop returns the images or raises, the
  handle taken at entry is no longer among the open documents.
\<close>

theorem render_releases_handle:
  "(if isl (fitz_open w input_pdf_path)
    then snd (render_pages_to_images w input_pdf_path dpi s) = s
    else open_docs (snd (render_pages_to_images w input_pdf_path dpi s))
           = open_docs s - {next_handle s})"
  unfolding render_pages_to_images_def
  by (simp split: sum.splits add: Let_def)

section \<open>Termination and the number of attempts\<close>

text \<open>
  Claim C4. For valid parameters (positive steps, each start at or above its minimum)
  \<^verbatim>\<open>iterative_compress_to_limit\<close> returns, with a result or with the exception of an
  attempt, and the number of rasterize and compose attempts is at most
  \<open>\<lceil>(START_DPI - MIN_DPI) / DPI_STEP + 1\<rceil> * \<lceil>(START_JPEG_QUALITY - MIN_JPEG_QUALITY) / QUALITY_STEP + 1\<rceil>\<close>.
  Every attempt prints one \<^verbatim>\<open>try\<close> line, except an attempt that raises, which ends
  the run: the attempts are the printed lines, plus one when the run ends in an exception.
\<close>

theorem search_terminates_within_bound:
  assumes "0 < QUALITY_STEP c" "0 < DPI_STEP c"
    and "MIN_DPI c \<le> START_DPI c" "MIN_JPEG_QUALITY c \<le> START_JPEG_QUALITY c"
  shows "\<exists>out s' lines.
     iterative_compress_to_limit w c p s = Some (out, s')
   \<and> stdout s' = stdout s @ lines
   \<and> int (length lines + (if isl out then 1 else 0))
       \<le> \<lceil>of_int (START_DPI c - MIN_DPI c) / of_int (DPI_STEP c) + (1::rat)\<rceil>
         * \<lceil>of_int (START_JPEG_QUALITY c - MIN_JPEG_QUALITY c) / of_int (QUALITY_STEP c) + (1::rat)\<rceil>"
proof -
  let ?path = "path_from c (START_DPI c) (START_JPEG_QUALITY c)"
  let ?R = "Suc (dpi_steps c (START_DPI c))"
  let ?K = "Suc (quality_steps c (START_JPEG_QUALITY c))"
  from run_facts[OF assms(1,2), of w p s] obtain out s' lines where
    run: "iterative_compress_to_limit w c p s = Some (out, s')"
    and out: "stdout s' = stdout s @ lines"
    and len: "length lines \<le> length ?path"
    and fin: "(case out of Inl e \<Rightarrow> length lines < length ?path
       | Inr r \<Rightarrow> lines \<noteq> [] \<and> (MAX_TARGET_BYTES c < fst (snd r) \<longrightarrow> length lines = length ?path))"
    by blast
  have "length lines + (if isl out then 1 else 0) \<le> length ?path"
    using len fin by (cases out) simp_all
  also have "length ?path = ?R * ?K" by (rule path_length[OF assms(1,2)])
  finally have "int (length lines + (if isl out then 1 else 0)) \<le> int ?R * int ?K"
    by (metis of_nat_le_iff of_nat_mult)
  also have "\<dots> \<le> \<lceil>of_int (START_DPI c - MIN_DPI c) / of_int (DPI_STEP c) + (1::rat)\<rceil>
         * \<lceil>of_int (START_JPEG_QUALITY c - MIN_JPEG_QUALITY c) / of_int (QUALITY_STEP c) + (1::rat)\<rceil>"
  proof (rule mult_mono)
    show "int ?R \<le> \<lceil>of_int (START_DPI c - MIN_DPI c) / of_int (DPI_STEP c) + (1::rat)\<rceil>"
      unfolding dpi_steps_def using steps_le_ceiling[OF assms(2), of "START_DPI c - MIN_DPI c"] assms(3) by simp
    show "int ?K \<le> \<lceil>of_int (START_JPEG_QUALITY c - MIN_JPEG_QUALITY c) / of_int (QUALITY_STEP c) + (1::rat)\<rceil>"
      unfolding quality_steps_def
      using steps_le_ceiling[OF assms(1), of "START_JPEG_QUALITY c - MIN_JPEG_QUALITY c"] assms(4) by simp
    show "0 \<le> \<lceil>of_int (START_DPI c - MIN_DPI c) / of_int (DPI_STEP c) + (1::rat)\<rceil>"
      using steps_le_ceiling[OF assms(2), of "START_DPI c - MIN_DPI c"] assms(3) by linarith
    show "0 \<le> int ?K" by simp
  qed
  finally show ?thesis using run out by blast
qed

theorem search_terminates_within_bound_witness:
  "0 < QUALITY_STEP default_config \<and> 0 < DPI_STEP default_config
   \<and> MIN_DPI default_config \<le> START_DPI default_config
   \<and> MIN_JPEG_QUALITY default_config \<le> START_JPEG_QUALITY default_config
   \<and> (\<exists>out s' lines.
        iterative_compress_to_limit (square_world (\<lambda>pg q. 2500000)) default_config ''in.pdf'' init_state
          = Some (out, s')
      \<and> stdout s' = stdout init_state @ lines
      \<and> int (length lines + (if isl out then 1 else 0)) \<le> 108)"
proof -
  have c: "0 < QUALITY_STEP default_config" "0 < DPI_STEP default_config"
    "MIN_DPI default_config \<le> START_DPI default_config"
    "MIN_JPEG_QUALITY default_config \<le> START_JPEG_QUALITY default_config"
    by (simp_all add: default_config_def)
  have b: "\<lceil>of_int (START_DPI default_config - MIN_DPI default_config) / of_int (DPI_STEP default_config) + (1::rat)\<rceil>
         * \<lceil>of_int (START_JPEG_QUALITY default_config - MIN_JPEG_QUALITY default_config)
              / of_int (QUALITY_STEP default_config) + (1::rat)\<rceil> = 108"
    by (simp add: default_config_def ceiling_eq_iff)
  show ?thesis
    using c search_terminates_within_bound[OF c, of "square_world (\<lambda>pg q. 2500000)" "''in.pdf''" init_state]
    unfolding b by simp
qed

section \<open>What the budget search returns\<close>

text \<open>
  Claim C1, as amended. For positive steps and each start at or above its minimum the
  search returns. When it returns a result, that result is the output of the last
  attempt printed; if some attempt of the run had a size within the budget, the result
  is within the budget; and if none had, the result is the one computed at the last
  pair of the descent path, \<open>START_DPI - ((START_DPI - MIN_DPI) div DPI_STEP) * DPI_STEP\<close>
  and \<open>START_JPEG_QUALITY - ((START_JPEG_QUALITY - MIN_JPEG_QUALITY) div QUALITY_STEP) * QUALITY_STEP\<close>:
  the lowest values the steps reach without passing the minimums, which are the minimums
  themselves only when each step divides its range.
\<close>

theorem budget_search_result:
  assumes "0 < QUALITY_STEP c" "0 < DPI_STEP c"
    and "MIN_DPI c \<le> START_DPI c" "MIN_JPEG_QUALITY c \<le> START_JPEG_QUALITY c"
  shows "\<exists>out s' lines.
     iterative_compress_to_limit w c p s = Some (out, s')
   \<and> stdout s' = stdout s @ lines
   \<and> (\<forall>b sz d q. out = Inr (b, sz, d, q) \<longrightarrow>
         fst (attempt w c p d q s) = Inr b \<and> sz = int (length b)
       \<and> lines \<noteq> [] \<and> last lines = (d, q, sz)
       \<and> ((\<exists>l \<in> set lines. snd (snd l) \<le> MAX_TARGET_BYTES c) \<longrightarrow> sz \<le> MAX_TARGET_BYTES c)
       \<and> ((\<forall>l \<in> set lines. MAX_TARGET_BYTES c < snd (snd l)) \<longrightarrow>
             d = START_DPI c - ((START_DPI c - MIN_DPI c) div DPI_STEP c) * DPI_STEP c
           \<and> q = START_JPEG_QUALITY c
                 - ((START_JPEG_QUALITY c - MIN_JPEG_QUALITY c) div QUALITY_STEP c) * QUALITY_STEP c))"
proof -
  let ?path = "path_from c (START_DPI c) (START_JPEG_QUALITY c)"
  from run_facts[OF assms(1,2), of w p s] obtain out s' lines where
    run: "iterative_compress_to_limit w c p s = Some (out, s')"
    and out: "stdout s' = stdout s @ lines"
    and inv: "run_inv w c p s s (out, s')"
    and tk: "map (\<lambda>l. (fst l, fst (snd l))) lines = take (length lines) ?path"
    and fin: "(case out of Inl e \<Rightarrow> length lines < length ?path
       | Inr r \<Rightarrow> lines \<noteq> [] \<and> (MAX_TARGET_BYTES c < fst (snd r) \<longrightarrow> length lines = length ?path))"
    by blast
  note I = run_inv_lines[OF inv out]
  have "fst (attempt w c p d q s) = Inr b \<and> sz = int (length b)
       \<and> lines \<noteq> [] \<and> last lines = (d, q, sz)
       \<and> ((\<exists>l \<in> set lines. snd (snd l) \<le> MAX_TARGET_BYTES c) \<longrightarrow> sz \<le> MAX_TARGET_BYTES c)
       \<and> ((\<forall>l \<in> set lines. MAX_TARGET_BYTES c < snd (snd l)) \<longrightarrow>
             d = START_DPI c - ((START_DPI c - MIN_DPI c) div DPI_STEP c) * DPI_STEP c
           \<and> q = START_JPEG_QUALITY c
                 - ((START_JPEG_QUALITY c - MIN_JPEG_QUALITY c) div QUALITY_STEP c) * QUALITY_STEP c)"
    if o: "out = Inr (b, sz, d, q)" for b sz d q
  proof -
    from I o have a: "lines \<noteq> []" "last lines = (d, q, sz)" "sz = int (length b)"
      "fst (attempt w c p d q s) = Inr b"
      and bl: "\<forall>l \<in> set (butlast lines). MAX_TARGET_BYTES c < snd (snd l)"
      by simp_all
    have pass: "sz \<le> MAX_TARGET_BYTES c" if "\<exists>l \<in> set lines. snd (snd l) \<le> MAX_TARGET_BYTES c"
    proof -
      from that obtain l where l: "l \<in> set lines" "snd (snd l) \<le> MAX_TARGET_BYTES c" by blast
      from passing_line_is_last[OF bl l] a(2) l(2) show ?thesis by simp
    qed
    have fail: "d = START_DPI c - ((START_DPI c - MIN_DPI c) div DPI_STEP c) * DPI_STEP c
           \<and> q = START_JPEG_QUALITY c
                 - ((START_JPEG_QUALITY c - MIN_JPEG_QUALITY c) div QUALITY_STEP c) * QUALITY_STEP c"
      if "\<forall>l \<in> set lines. MAX_TARGET_BYTES c < snd (snd l)"
    proof -
      from that a(1,2) have "MAX_TARGET_BYTES c < sz"
        using last_in_set[OF a(1)] by force
      with fin o have len: "length lines = length ?path" by simp
      with tk have "map (\<lambda>l. (fst l, fst (snd l))) lines = ?path" by simp
      then have "last ?path = (\<lambda>l. (fst l, fst (snd l))) (last lines)"
        using a(1) by (metis last_map)
      then have "last ?path = (d, q)" using a(2) by simp
      then show ?thesis
        unfolding path_last[OF assms(1,2)] dpi_steps_def quality_steps_def
        using steps_int[OF assms(2), of "START_DPI c - MIN_DPI c"]
          steps_int[OF assms(1), of "START_JPEG_QUALITY c - MIN_JPEG_QUALITY c"] assms(3,4)
        by simp
    qed
    from a pass fail show ?thesis by blast
  qed
  then show ?thesis using run out by blast
qed

theorem budget_search_result_witness:
  "0 < QUALITY_STEP default_config \<and> 0 < DPI_STEP default_config
   \<and> MIN_DPI default_config \<le> START_DPI default_config
   \<and> MIN_JPEG_QUALITY default_config \<le> START_JPEG_QUALITY default_config
   \<and> (\<exists>out s' lines.
     iterative_compress_to_limit (square_world (\<lambda>pg q. 2500000)) default_config ''in.pdf'' init_state
        = Some (out, s')
   \<and> stdout s' = stdout init_state @ lines
   \<and> (\<forall>b sz d q. out = Inr (b, sz, d, q) \<longrightarrow>
         fst (attempt (square_world (\<lambda>pg q. 2500000)) default_config ''in.pdf'' d q init_state) = Inr b
       \<and> sz = int (length b)
       \<and> lines \<noteq> [] \<and> last lines = (d, q, sz)
       \<and> ((\<exists>l \<in> set lines. snd (snd l) \<le> 1048576) \<longrightarrow> sz \<le> 1048576)
       \<and> ((\<forall>l \<in> set lines. 1048576 < snd (snd l)) \<longrightarrow> d = 80 \<and> q = 30)))"
proof -
  have c: "0 < QUALITY_STEP default_config" "0 < DPI_STEP default_config"
    "MIN_DPI default_config \<le> START_DPI default_config"
    "MIN_JPEG_QUALITY default_config \<le> START_JPEG_QUALITY default_config"
    by (simp_all add: default_config_def)
  have v: "MAX_TARGET_BYTES default_config = 1048576"
    "START_DPI default_config - ((START_DPI default_config - MIN_DPI default_config) div DPI_STEP default_config)
        * DPI_STEP default_config = 80"
    "START_JPEG_QUALITY default_config
       - ((START_JPEG_QUALITY default_config - MIN_JPEG_QUALITY default_config) div QUALITY_STEP default_config)
        * QUALITY_STEP default_config = 30"
    by (simp_all add: default_config_def)
  show ?thesis
    using c budget_search_result[OF c, of "square_world (\<lambda>pg q. 2500000)" "''in.pdf''" init_state]
    unfolding v by simp
qed

section \<open>Start at the minimums\<close>

text \<open>
  Claim C9, as amended. With positive steps, when \<open>START_DPI = MIN_DPI\<close> and
  \<open>START_JPEG_QUALITY = MIN_JPEG_QUALITY\<close> the search makes exactly one attempt: it
  returns what that attempt produced, whatever its size, after printing its one line
  (or it ends in the exception of that attempt).
\<close>

theorem single_attempt_at_minimums:
  assumes "0 < QUALITY_STEP c" "0 < DPI_STEP c"
    and "START_DPI c = MIN_DPI c" "START_JPEG_QUALITY c = MIN_JPEG_QUALITY c"
  shows "iterative_compress_to_limit w c p s =
     Some (case attempt w c p (START_DPI c) (START_JPEG_QUALITY c) s of
             (Inl e, s1) \<Rightarrow> (Inl e, s1)
           | (Inr b, s1) \<Rightarrow>
               (Inr (b, int (length b), START_DPI c, START_JPEG_QUALITY c),
                s1\<lparr>stdout := stdout s1 @ [(START_DPI c, START_JPEG_QUALITY c, int (length b))]\<rparr>))"
  unfolding iterative_compress_to_limit_def
  by (subst compress_loop.simps) (use assms in \<open>simp split: prod.splits sum.splits add: Let_def\<close>)

section \<open>First success wins\<close>

text \<open>
  Claim C2. An attempt whose size is within the budget ends the loop at once: the loop
  returns that attempt's bytes, their size and the pair that produced them, having
  printed that one line. Hence in every returned run no attempt follows a passing one:
  a printed line with a size within the budget is the last line, and the run returns
  the bytes of the attempt at its pair, with that pair.
\<close>

theorem first_success_wins:
  "(attempt w c p dpi quality s = (Inr b, s1) \<and> int (length b) \<le> MAX_TARGET_BYTES c \<longrightarrow>
      compress_loop w c p dpi quality s =
        Some (Inr (b, int (length b), dpi, quality),
              s1\<lparr>stdout := stdout s1 @ [(dpi, quality, int (length b))]\<rparr>))
   \<and> (iterative_compress_to_limit w c p s = Some (out, s') \<longrightarrow>
        (\<exists>lines. stdout s' = stdout s @ lines
          \<and> (\<forall>i < length lines. snd (snd (lines ! i)) \<le> MAX_TARGET_BYTES c \<longrightarrow>
                Suc i = length lines
              \<and> (\<exists>b'. out = Inr (b', snd (snd (lines ! i)), fst (lines ! i), fst (snd (lines ! i)))
                     \<and> fst (attempt w c p (fst (lines ! i)) (fst (snd (lines ! i))) s) = Inr b'))))"
proof (intro conjI impI)
  assume "attempt w c p dpi quality s = (Inr b, s1) \<and> int (length b) \<le> MAX_TARGET_BYTES c"
  then show "compress_loop w c p dpi quality s =
        Some (Inr (b, int (length b), dpi, quality),
              s1\<lparr>stdout := stdout s1 @ [(dpi, quality, int (length b))]\<rparr>)"
    by (subst compress_loop.simps) (simp add: Let_def)
next
  assume run: "iterative_compress_to_limit w c p s = Some (out, s')"
  then have "compress_loop w c p (START_DPI c) (START_JPEG_QUALITY c) s = Some (out, s')"
    unfolding iterative_compress_to_limit_def .
  from loop_inv[OF this] have inv: "run_inv w c p s s (out, s')" .
  then obtain lines where out: "stdout s' = stdout s @ lines"
    unfolding run_inv_def by auto
  note I = run_inv_lines[OF inv out]
  have "Suc i = length lines
      \<and> (\<exists>b'. out = Inr (b', snd (snd (lines ! i)), fst (lines ! i), fst (snd (lines ! i)))
             \<and> fst (attempt w c p (fst (lines ! i)) (fst (snd (lines ! i))) s) = Inr b')"
    if i: "i < length lines" and ok: "snd (snd (lines ! i)) \<le> MAX_TARGET_BYTES c" for i
  proof -
    from I have bl: "\<forall>l \<in> set (butlast lines). MAX_TARGET_BYTES c < snd (snd l)" by simp
    have mem: "lines ! i \<in> set lines" using i by simp
    from passing_line_is_last[OF bl mem ok] have last: "lines ! i = last lines" .
    have "\<not> i < length lines - 1"
    proof
      assume "i < length lines - 1"
      then have "butlast lines ! i \<in> set (butlast lines)" by simp
      moreover have "butlast lines ! i = lines ! i" using \<open>i < length lines - 1\<close>
        by (simp add: nth_butlast)
      ultimately show False using bl ok by force
    qed
    with i have suc: "Suc i = length lines" by simp
    show ?thesis
    proof (cases out)
      case (Inl e)
      with I mem ok show ?thesis by force
    next
      case (Inr r)
      obtain b' sz d q where r: "r = (b', sz, d, q)" by (cases r)
      from I Inr r have "last lines = (d, q, sz)" "fst (attempt w c p d q s) = Inr b'" by simp_all
      with last Inr r suc show ?thesis by simp
    qed
  qed
  with out show "\<exists>lines. stdout s' = stdout s @ lines
          \<and> (\<forall>i < length lines. snd (snd (lines ! i)) \<le> MAX_TARGET_BYTES c \<longrightarrow>
                Suc i = length lines
              \<and> (\<exists>b'. out = Inr (b', snd (snd (lines ! i)), fst (lines ! i), fst (snd (lines ! i)))
                     \<and> fst (attempt w c p (fst (lines ! i)) (fst (snd (lines ! i))) s) = Inr b'))"
    by blast
qed

end
